theory Spec2Isabelle
  imports Main "HOL-Library.Word" "HOL-Library.Product_Lexorder"
begin

unbundle bit_operations_syntax

section \<open>Data model of la-tripods.cc\<close>

text \<open>
  \<^verbatim>\<open>constexpr uint8_t kRows = 6; constexpr uint8_t kTripods = 3;\<close>
  \<^verbatim>\<open>using Book = array<uint8_t, kRows>;\<close>
\<close>

definition kRows :: nat where
  "kRows = 6"

definition kTripods :: nat where
  "kTripods = 3"

type_synonym Book = "8 word list"

text \<open>
  \<^verbatim>\<open>struct Item\<close>. The row and the tripod identifiers are \<^verbatim>\<open>uint8_t\<close> values that
  the code only uses as indices and shift counts; they are natural numbers here. The cost
  is a \<^verbatim>\<open>uint16_t\<close>. The array \<^verbatim>\<open>tripods[kTripods]\<close> is a list, 0 meaning "no tripod".
\<close>

record Item =
  row :: nat
  cost :: "16 word"
  tripods :: "nat list"
  used :: bool

text \<open>
  \<^verbatim>\<open>struct Score { uint64_t tripods = 0; uint32_t cost = 0; }\<close>. The two fields carry the
  prefix \<open>score_\<close> because \<open>tripods\<close> and \<open>cost\<close> are fields of \<open>Item\<close> already.
\<close>

record Score =
  score_tripods :: "64 word"
  score_cost :: "32 word"

text \<open>
  \<^verbatim>\<open>struct Assignment { size_t item = -1; Score score; }\<close>. The cursor is an integer whose
  value \<open>-1\<close> is the sentinel \<^verbatim>\<open>static_cast<size_t>(-1)\<close>: incrementing the sentinel gives
  0, as the unsigned wrap-around does.
\<close>

record Assignment =
  item :: int
  score :: Score

definition Score0 :: Score where
  "Score0 = \<lparr>score_tripods = 0, score_cost = 0\<rparr>"

definition Assignment0 :: Assignment where
  "Assignment0 = \<lparr>item = - 1, score = Score0\<rparr>"

section \<open>Score\<close>

text \<open>\<^verbatim>\<open>std::popcount\<close> on a 64-bit value.\<close>

definition popcount :: "64 word \<Rightarrow> nat" where
  "popcount w = length (filter (bit w) [0..<64])"

text \<open>\<^verbatim>\<open>int tripod_count(uint64_t mask = -1) const { return popcount(tripods & mask); }\<close>\<close>

definition tripod_count :: "Score \<Rightarrow> 64 word \<Rightarrow> int" where
  "tripod_count x m = int (popcount (score_tripods x AND m))"

text \<open>
  \<^verbatim>\<open>BetterThan\<close> compares the tuples
  \<^verbatim>\<open>make_tuple(x.tripod_count(prio_mask), x.tripod_count(), -x.cost)\<close> with \<^verbatim>\<open>>\<close>, which is
  lexicographic. The third component has the type of \<^verbatim>\<open>-x.cost\<close>, which is \<^verbatim>\<open>uint32_t\<close>:
  the negation is taken modulo \<open>2 ^ 32\<close> and the comparison is unsigned.
\<close>

definition score_key :: "64 word \<Rightarrow> Score \<Rightarrow> int \<times> int \<times> 32 word" where
  "score_key prio_mask x = (tripod_count x prio_mask, tripod_count x (- 1), - score_cost x)"

definition BetterThan :: "Score \<Rightarrow> Score \<Rightarrow> 64 word \<Rightarrow> bool" where
  "BetterThan this other prio_mask = (score_key prio_mask this > score_key prio_mask other)"

section \<open>The catalog index\<close>

text \<open>
  The first loop of \<^verbatim>\<open>Optimize\<close>. The vector \<^verbatim>\<open>tripods\<close> holds, for every tripod
  identifier \<open>t\<close>, at position \<open>t - 1\<close>, pointers to the items that list \<open>t\<close>; a pointer to
  \<^verbatim>\<open>items[i]\<close> is the index \<open>i\<close>.
\<close>

definition resize :: "'a list \<Rightarrow> nat \<Rightarrow> 'a \<Rightarrow> 'a list" where
  "resize xs n x = take n xs @ replicate (n - length xs) x"

definition add_tripod :: "nat \<Rightarrow> nat list list \<Rightarrow> nat \<Rightarrow> nat list list" where
  "add_tripod i ts tripod =
     (if tripod = 0 then ts
      else let ts' = (if length ts < tripod then resize ts tripod [] else ts)
           in ts'[tripod - 1 := ts' ! (tripod - 1) @ [i]])"

definition add_item :: "nat list list \<Rightarrow> nat \<times> Item \<Rightarrow> nat list list" where
  "add_item ts p = foldl (add_tripod (fst p)) ts (tripods (snd p))"

definition Build :: "Item list \<Rightarrow> nat list list" where
  "Build items = foldl add_item [] (enumerate 0 items)"

section \<open>The search loop\<close>

text \<open>
  The variables of \<^verbatim>\<open>Optimize\<close> that the loop changes: the catalog (for the \<^verbatim>\<open>used\<close>
  flags), the by-value copy of the book, the frame vector, the best score, and what has
  been written to \<^verbatim>\<open>cout\<close>: one entry per "New best assignment" block, holding the score
  printed and the indices printed by the "Use item" lines.
\<close>

record state =
  items :: "Item list"
  book :: Book
  assignments :: "Assignment list"
  best_score :: Score
  emitted :: "(Score \<times> nat list) list"

text \<open>\<^verbatim>\<open>const uint64_t prio_mask = (uint64_t{1} << prio_tripods) - 1;\<close>\<close>

definition prio_mask_of :: "int \<Rightarrow> 64 word" where
  "prio_mask_of prio_tripods = push_bit (nat prio_tripods) 1 - 1"

text \<open>
  The value of \<^verbatim>\<open>1 << (tripod - 1)\<close> in \<^verbatim>\<open>prev.score.tripods & (1 << (tripod - 1))\<close>.
  The literal \<^verbatim>\<open>1\<close> is a 32-bit \<^verbatim>\<open>int\<close>, so the shift is a 32-bit shift whose result is
  sign-extended to 64 bits by the conversion to \<^verbatim>\<open>uint64_t\<close>. For a shift count of 32 or
  more the language leaves the result undefined; the parameter \<open>shl\<close> stands for whatever
  the platform yields there.
\<close>

definition int_shl :: "(nat \<Rightarrow> 64 word) \<Rightarrow> nat \<Rightarrow> 64 word" where
  "int_shl shl n = (if n < 32 then scast (push_bit n (1 :: 32 word)) else shl n)"

text \<open>Common hardware takes the count of a 32-bit shift modulo 32.\<close>

definition shl_mod32 :: "nat \<Rightarrow> 64 word" where
  "shl_mod32 n = scast (push_bit (n mod 32) (1 :: 32 word))"

text \<open>
  The \<^verbatim>\<open>do ... while\<close> scan: \<open>scan its bk ps i\<close> walks the candidates \<open>ps\<close>, which sit at
  the positions \<open>i, i + 1, ...\<close> of the candidate list, and returns the position of the
  first one that is neither used nor in a full row; \<open>None\<close> is \<^verbatim>\<open>goto pop\<close>.
\<close>

fun scan :: "Item list \<Rightarrow> Book \<Rightarrow> nat list \<Rightarrow> nat \<Rightarrow> nat option" where
  "scan its bk [] i = None"
| "scan its bk (p # ps) i =
     (if used (its ! p) \<or> bk ! row (its ! p) = 0 then scan its bk ps (Suc i) else Some i)"

text \<open>\<^verbatim>\<open>pop: assignments.pop_back();\<close>\<close>

definition pop :: "state \<Rightarrow> state" where
  "pop s = s\<lparr>assignments := butlast (assignments s)\<rparr>"

text \<open>\<^verbatim>\<open>v[a.item]->used = false; ++book[v[a.item]->row];\<close>\<close>

definition unselect :: "nat \<Rightarrow> state \<Rightarrow> state" where
  "unselect p s =
     s\<lparr>items := (items s)[p := (items s ! p)\<lparr>used := False\<rparr>],
       book := (book s)[row (items s ! p) := book s ! row (items s ! p) + 1]\<rparr>"

text \<open>
  \<^verbatim>\<open>for (uint8_t t : v[a.item]->tripods) if (t) a.score.tripods |= (uint64_t{1} << (t - 1));\<close>
\<close>

definition add_bits :: "64 word \<Rightarrow> nat list \<Rightarrow> 64 word" where
  "add_bits m ts = foldl (\<lambda>m t. if t \<noteq> 0 then m OR push_bit (t - 1) 1 else m) m ts"

definition used_items :: "Item list \<Rightarrow> nat list" where
  "used_items its = filter (\<lambda>i. used (its ! i)) [0..<length its]"

text \<open>
  Lines 107 to 128: the candidate at position \<open>j\<close> of \<open>v\<close> is selected, the frame's score
  is computed from the score of the previous frame, and either the frame vector is
  resized to full depth or the score is compared with the best one.
\<close>

definition select :: "nat \<Rightarrow> 64 word \<Rightarrow> nat list \<Rightarrow> Assignment \<Rightarrow> nat \<Rightarrow> state \<Rightarrow> state" where
  "select T prio_mask v prev j s =
     (let p = v ! j;
          it = items s ! p;
          its = (items s)[p := it\<lparr>used := True\<rparr>];
          bk = (book s)[row it := book s ! row it - 1];
          sc = \<lparr>score_tripods = add_bits (score_tripods (score prev)) (tripods it),
                score_cost = score_cost (score prev) + ucast (cost it)\<rparr>;
          fs = butlast (assignments s) @ [\<lparr>item = int j, score = sc\<rparr>];
          s1 = s\<lparr>items := its, book := bk, assignments := fs\<rparr>
      in if length fs \<noteq> T then s1\<lparr>assignments := resize fs T \<lparr>item = - 1, score = sc\<rparr>\<rparr>
         else if BetterThan sc (best_score s) prio_mask
              then s1\<lparr>best_score := sc, emitted := emitted s @ [(sc, used_items its)]\<rparr>
              else s1)"

text \<open>
  Lines 102 to 105 followed by the selection: the scan starts at the position after the
  cursor.
\<close>

definition advance :: "nat \<Rightarrow> 64 word \<Rightarrow> nat list \<Rightarrow> Assignment \<Rightarrow> int \<Rightarrow> state \<Rightarrow> state" where
  "advance T prio_mask v prev c s =
     (case scan (items s) (book s) (drop (nat (c + 1)) v) (nat (c + 1)) of
        None \<Rightarrow> pop s
      | Some j \<Rightarrow> select T prio_mask v prev j s)"

text \<open>
  One iteration of \<^verbatim>\<open>while (!assignments.empty())\<close>. The flag \<open>redundancy\<close> is \<open>True\<close> in
  the program; \<open>False\<close> is the program without the branch of lines 93 and 94.
\<close>

definition step :: "bool \<Rightarrow> (nat \<Rightarrow> 64 word) \<Rightarrow> nat list list \<Rightarrow> int \<Rightarrow> state \<Rightarrow> state" where
  "step redundancy shl ts prio_tripods s =
     (let prio_mask = prio_mask_of prio_tripods;
          tripod = length (assignments s);
          v = ts ! (tripod - 1);
          a = last (assignments s);
          prev = (if tripod > 1 then assignments s ! (tripod - 2) else Assignment0)
      in if item a \<noteq> - 1
         then advance (length ts) prio_mask v prev (item a) (unselect (v ! nat (item a)) s)
         else if redundancy \<and> score_tripods (score prev) AND int_shl shl (tripod - 1) \<noteq> 0
         then pop s
         else if score_tripods (score a) AND prio_mask \<noteq> prio_mask \<and> int tripod > prio_tripods
         then pop s
         else advance (length ts) prio_mask v prev (item a) s)"

partial_function (option) search_loop ::
  "bool \<Rightarrow> (nat \<Rightarrow> 64 word) \<Rightarrow> nat list list \<Rightarrow> int \<Rightarrow> state \<Rightarrow> state option" where
  "search_loop redundancy shl ts prio_tripods s =
     (if assignments s = [] then Some s
      else search_loop redundancy shl ts prio_tripods (step redundancy shl ts prio_tripods s))"

declare search_loop.simps [code]

text \<open>
  The state when the loop is entered: \<^verbatim>\<open>Score best_score = {};\<close> and
  \<^verbatim>\<open>vector<Assignment> assignments(tripods.size());\<close>, one default frame per tripod.
\<close>

definition init :: "Item list \<Rightarrow> Book \<Rightarrow> state" where
  "init its bk =
     \<lparr>items = its, book = bk, assignments = replicate (length (Build its)) Assignment0,
      best_score = Score0, emitted = []\<rparr>"

text \<open>
  \<^verbatim>\<open>Optimize\<close> builds the index and runs the loop; the result is the state at the end of
  the loop, whose \<open>items\<close> and \<open>emitted\<close> fields are what the caller can observe, and \<open>None\<close>
  would be a loop that never ends. The C++ has defined behaviour when every row is in
  \<open>[0, kRows)\<close>, every tripod identifier is at most 64 and \<open>0 \<le> prio_tripods < 64\<close>;
  beyond that it indexes the book out of bounds or shifts a 64-bit value by 64 or more.
\<close>

definition Optimize_gen :: "bool \<Rightarrow> (nat \<Rightarrow> 64 word) \<Rightarrow> Item list \<Rightarrow> int \<Rightarrow> Book \<Rightarrow> state option" where
  "Optimize_gen redundancy shl its prio_tripods bk =
     search_loop redundancy shl (Build its) prio_tripods (init its bk)"

definition Optimize :: "(nat \<Rightarrow> 64 word) \<Rightarrow> Item list \<Rightarrow> int \<Rightarrow> Book \<Rightarrow> state option" where
  "Optimize = Optimize_gen True"

text \<open>The state after the first \<open>n\<close> iterations (or at the end, if the loop ends sooner).\<close>

fun steps :: "bool \<Rightarrow> (nat \<Rightarrow> 64 word) \<Rightarrow> nat list list \<Rightarrow> int \<Rightarrow> nat \<Rightarrow> state \<Rightarrow> state" where
  "steps redundancy shl ts prio_tripods 0 s = s"
| "steps redundancy shl ts prio_tripods (Suc n) s =
     (if assignments s = [] then s
      else steps redundancy shl ts prio_tripods n (step redundancy shl ts prio_tripods s))"

section \<open>The spec's notions of a selection\<close>

text \<open>
  The spec speaks of feasible selections of items and of the Score of a selection; these
  definitions follow its words, not the code. A selection is a list of item indices. It
  is feasible when every item is selected at most once and, per category, the number of
  selected items does not exceed the initial capacity. Its Score is the union of the
  traits of its items and the sum of their costs. The number of currently selected items
  of a category is the number of items of that row whose \<^verbatim>\<open>used\<close> flag is set.
\<close>

definition feasible_selection :: "Item list \<Rightarrow> Book \<Rightarrow> nat list \<Rightarrow> bool" where
  "feasible_selection its bk sel =
     (distinct sel \<and> list_all (\<lambda>i. i < length its) sel \<and>
      list_all (\<lambda>c. length (filter (\<lambda>i. row (its ! i) = c) sel) \<le> unat (bk ! c))
        [0..<length bk])"

definition selection_score :: "Item list \<Rightarrow> nat list \<Rightarrow> Score" where
  "selection_score its sel =
     \<lparr>score_tripods = foldl (\<lambda>m i. add_bits m (tripods (its ! i))) 0 sel,
      score_cost = foldl (\<lambda>c i. c + ucast (cost (its ! i))) 0 sel\<rparr>"

definition count_row :: "nat \<Rightarrow> Item list \<Rightarrow> nat" where
  "count_row c its = length (filter (\<lambda>x. used x \<and> row x = c) its)"

section \<open>Concrete inputs\<close>

text \<open>
  The scenario of the spec's section 8: two categories of capacity 1 (the other four rows
  of the book are full), items A, B and C, one priority tripod.
\<close>

definition scenario_items :: "Item list" where
  "scenario_items =
     [\<lparr>row = 0, cost = 5, tripods = [1, 0, 0], used = False\<rparr>,
      \<lparr>row = 1, cost = 3, tripods = [1, 2, 0], used = False\<rparr>,
      \<lparr>row = 0, cost = 1, tripods = [2, 0, 0], used = False\<rparr>]"

definition scenario_book :: Book where
  "scenario_book = [1, 1, 0, 0, 0, 0]"

text \<open>
  A catalog of one item that lists the tripods 1 and 2, a book with one free slot per row,
  and a catalog whose item has a row that is not in \<open>[0, kRows)\<close>.
\<close>

definition pair_items :: "Item list" where
  "pair_items = [\<lparr>row = 0, cost = 0, tripods = [1, 2, 0], used = False\<rparr>]"

definition unit_book :: Book where
  "unit_book = [1, 1, 1, 1, 1, 1]"

definition malformed_items :: "Item list" where
  "malformed_items = [\<lparr>row = 6, cost = 0, tripods = [1, 0, 0], used = False\<rparr>]"

text \<open>
  A catalog with 34 tripods: the first item lists the tripods 1 and 33, the second tripod
  32, the third tripod 34. \<open>frame32_state\<close> is the state after 37 iterations on this
  catalog with one priority tripod, on a platform that takes shift counts modulo 32.
\<close>

definition wide_items :: "Item list" where
  "wide_items =
     [\<lparr>row = 0, cost = 0, tripods = [1, 33, 0], used = False\<rparr>,
      \<lparr>row = 1, cost = 0, tripods = [32, 0, 0], used = False\<rparr>,
      \<lparr>row = 2, cost = 0, tripods = [34, 0, 0], used = False\<rparr>]"

definition frame32_state :: state where
  "frame32_state = steps True shl_mod32 (Build wide_items) 1 37 (init wide_items unit_book)"

section \<open>Auxiliary notions for the proofs\<close>

text \<open>
  The state after lines 90 to 92 (the candidate of the top frame, if any, is released),
  the local \<^verbatim>\<open>prev\<close> of an iteration, and the score a selection gives a frame.
\<close>

definition after_unselect :: "nat list list \<Rightarrow> state \<Rightarrow> state" where
  "after_unselect ts s =
     (let a = last (assignments s); v = ts ! (length (assignments s) - 1)
      in if item a \<noteq> - 1 then unselect (v ! nat (item a)) s else s)"

definition prev_of :: "state \<Rightarrow> Assignment" where
  "prev_of s = (if length (assignments s) > 1 then assignments s ! (length (assignments s) - 2)
                else Assignment0)"

definition new_score :: "Assignment \<Rightarrow> Item \<Rightarrow> Score" where
  "new_score prev it =
     \<lparr>score_tripods = add_bits (score_tripods (score prev)) (tripods it),
      score_cost = score_cost (score prev) + ucast (cost it)\<rparr>"

text \<open>
  The candidate list of a tripod identifier (empty when there is none), and the entries an
  item contributes to the list of tripod \<open>t\<close>: one per slot equal to \<open>t\<close>.
\<close>

definition cand :: "nat list list \<Rightarrow> nat \<Rightarrow> nat list" where
  "cand ts t = (if 0 < t \<and> t \<le> length ts then ts ! (t - 1) else [])"

definition copies :: "nat \<Rightarrow> nat \<times> Item \<Rightarrow> nat list" where
  "copies t p = replicate (count_list (tripods (snd p)) t) (fst p)"

definition lists_ok :: "Item list \<Rightarrow> nat list list \<Rightarrow> bool" where
  "lists_ok its0 ts \<longleftrightarrow> (\<forall>k<length ts. \<forall>p\<in>set (ts ! k). p < length its0)"

text \<open>
  A bound on the iterations still to come. \<open>clear_cost vs\<close> bounds the iterations that
  remove fresh frames over the candidate lists \<open>vs\<close>; \<open>work ts fs\<close> adds, for every frame,
  one iteration for its removal and, for every candidate after its cursor, one iteration
  for the selection and those that remove the frames above.
\<close>

fun clear_cost :: "nat list list \<Rightarrow> nat" where
  "clear_cost [] = 0"
| "clear_cost (v # vs) = 1 + length v * (1 + clear_cost vs) + clear_cost vs"

fun work :: "nat list list \<Rightarrow> Assignment list \<Rightarrow> nat" where
  "work (v # vs) (a # fs) = 1 + (length v - nat (item a + 1)) * (1 + clear_cost vs) + work vs fs"
| "work ts fs = 0"

text \<open>
  The invariant of the loop. \<open>selected ts fs\<close> lists the items under the cursors of the
  frames \<open>fs\<close>, bottom frame first; \<open>flags its0 sel\<close> is the catalog \<open>its0\<close> with the flags of
  the items \<open>sel\<close> set. The invariant says that the frame vector is no deeper than the
  number of tripods, that every cursor is the sentinel or a position of its candidate
  list, that the selected items are distinct and were not flagged at the call, and that
  the catalog is the initial one with exactly the selected items flagged.
\<close>

fun selected :: "nat list list \<Rightarrow> Assignment list \<Rightarrow> nat list" where
  "selected (v # vs) (a # fs) =
     (if item a = - 1 then [] else [v ! nat (item a)]) @ selected vs fs"
| "selected ts fs = []"

definition flags :: "Item list \<Rightarrow> nat list \<Rightarrow> Item list" where
  "flags its0 sel =
     map (\<lambda>i. (its0 ! i)\<lparr>used := used (its0 ! i) \<or> i \<in> set sel\<rparr>) [0..<length its0]"

definition cursors_ok :: "nat list list \<Rightarrow> Assignment list \<Rightarrow> bool" where
  "cursors_ok ts fs \<longleftrightarrow>
     length fs \<le> length ts \<and>
     (\<forall>k<length fs. - 1 \<le> item (fs ! k) \<and> item (fs ! k) < int (length (ts ! k)))"

definition inv :: "Item list \<Rightarrow> nat list list \<Rightarrow> state \<Rightarrow> bool" where
  "inv its0 ts s \<longleftrightarrow>
     cursors_ok ts (assignments s) \<and>
     distinct (selected ts (assignments s)) \<and>
     (\<forall>p\<in>set (selected ts (assignments s)). p < length its0 \<and> \<not> used (its0 ! p)) \<and>
     items s = flags its0 (selected ts (assignments s))"

text \<open>
  The capacity invariant: the book has its length, and every entry plus the number of
  used items of its row is the initial entry.
\<close>

definition cap_inv :: "Book \<Rightarrow> state \<Rightarrow> bool" where
  "cap_inv bk0 s \<longleftrightarrow>
     length (book s) = length bk0 \<and>
     (\<forall>c<length bk0. unat (book s ! c) + count_row c (items s) = unat (bk0 ! c))"

text \<open>
  The invariant of the output: every solution written holds an item of the last candidate
  list.
\<close>

definition emit_inv :: "nat list list \<Rightarrow> state \<Rightarrow> bool" where
  "emit_inv ts s \<longleftrightarrow>
     (\<forall>e\<in>set (emitted s). 0 < length ts \<and> (\<exists>q\<in>set (snd e). q \<in> set (ts ! (length ts - 1))))"

section \<open>The catalog index: what the build computes\<close>

lemma length_add_tripod: "length (add_tripod i ts x) = max (length ts) x"
  by (auto simp: add_tripod_def resize_def Let_def)

lemma cand_add_tripod:
  "cand (add_tripod i ts x) t = cand ts t @ (if x = t \<and> 0 < t then [i] else [])"
proof (cases "x = 0")
  case True
  then show ?thesis by (auto simp: add_tripod_def)
next
  case False
  show ?thesis
  proof (cases "length ts < x")
    case True
    with False show ?thesis
      by (auto simp: add_tripod_def resize_def Let_def cand_def nth_list_update nth_append)
  next
    case False
    with \<open>x \<noteq> 0\<close> show ?thesis
      by (auto simp: add_tripod_def Let_def cand_def nth_list_update)
  qed
qed

lemma length_foldl_add_tripod:
  "length (foldl (add_tripod i) ts xs) = foldl max (length ts) xs"
  by (induction xs arbitrary: ts) (simp_all add: length_add_tripod)

lemma cand_foldl_add_tripod:
  "0 < t \<Longrightarrow> cand (foldl (add_tripod i) ts xs) t = cand ts t @ replicate (count_list xs t) i"
  by (induction xs arbitrary: ts) (simp_all add: cand_add_tripod replicate_app_Cons_same)

lemma length_foldl_add_item:
  "length (foldl add_item ts ps) = foldl max (length ts) (concat (map (tripods \<circ> snd) ps))"
  by (induction ps arbitrary: ts) (simp_all add: add_item_def length_foldl_add_tripod)

lemma cand_foldl_add_item:
  "0 < t \<Longrightarrow> cand (foldl add_item ts ps) t = cand ts t @ concat (map (copies t) ps)"
  by (induction ps arbitrary: ts) (simp_all add: add_item_def cand_foldl_add_tripod copies_def)

lemma foldl_max_Max: "foldl max (n :: nat) xs = Max (set (n # xs))"
proof -
  have "(\<lambda>x s. max s x) = (max :: nat \<Rightarrow> nat \<Rightarrow> nat)"
    by (intro ext) (simp add: max.commute)
  then show ?thesis by (simp only: foldl_conv_fold Max.set_eq_fold)
qed

lemma map_snd_enumerate': "map (tripods \<circ> snd) (enumerate n xs) = map tripods xs"
  by (simp add: map_snd_enumerate flip: map_map)

lemma length_Build: "length (Build its) = Max (set (0 # concat (map tripods its)))"
  by (simp add: Build_def length_foldl_add_item map_snd_enumerate' foldl_max_Max)

lemma nth_Build:
  assumes "0 < t" "t \<le> length (Build its)"
  shows "Build its ! (t - 1) = concat (map (copies t) (enumerate 0 its))"
proof -
  have "cand [] t = []" by (auto simp: cand_def)
  with cand_foldl_add_item [OF assms(1), of "[]" "enumerate 0 its"]
  have "cand (Build its) t = concat (map (copies t) (enumerate 0 its))"
    by (simp add: Build_def)
  with assms show ?thesis by (simp add: cand_def)
qed

lemma Build_member:
  assumes "k < length (Build its)" "p \<in> set (Build its ! k)"
  shows "p < length its \<and> Suc k \<in> set (tripods (its ! p))"
proof -
  from assms(1) nth_Build [of "Suc k" its]
  have "Build its ! k = concat (map (copies (Suc k)) (enumerate 0 its))" by simp
  with assms(2) obtain q where q: "q \<in> set (enumerate 0 its)" "p \<in> set (copies (Suc k) q)"
    by auto
  from q(2) have "p = fst q" "count_list (tripods (snd q)) (Suc k) \<noteq> 0"
    by (auto simp: copies_def split: if_splits)
  moreover from q(1) have "fst q < length its" "snd q = its ! fst q"
    by (auto simp: in_set_enumerate_eq)
  ultimately show ?thesis by (auto simp: count_list_0_iff)
qed

lemma Build_ignores_row: "Build (map (\<lambda>x. x\<lparr>row := f x\<rparr>) its) = Build its"
proof -
  let ?g = "\<lambda>x. x\<lparr>row := f x\<rparr>"
  have "enumerate 0 (map ?g its) = map (apsnd ?g) (enumerate 0 its)"
    by (simp add: enumerate_eq_zip zip_map2 apsnd_def map_prod_def)
  moreover have "(\<lambda>ts p. add_item ts (apsnd ?g p)) = add_item"
    by (intro ext) (simp add: add_item_def)
  ultimately show ?thesis by (simp add: Build_def foldl_map)
qed

lemma lists_ok_Build: "lists_ok its (Build its)"
  unfolding lists_ok_def using Build_member by blast

text \<open>
  Claim C9, the counterexample. The row 6 is not in \<open>[0, kRows)\<close>; the index is built all
  the same, with the item in the candidate list of its tripod.
\<close>

theorem Build_accepts_malformed_row:
  "\<not> row (malformed_items ! 0) < kRows \<and> Build malformed_items = [[0]]"
  by code_simp

text \<open>
  Claim C9, amended. The build step validates nothing and rejects nothing: for every
  catalog it returns the candidate lists. There are as many lists as the largest tripod
  identifier of the catalog; the list of tripod \<open>t\<close> holds, in catalog order, every item
  once for each of its entries equal to \<open>t\<close>; and the rows of the items play no part.
\<close>

theorem Build_groups_without_validation:
  "length (Build its) = Max (set (0 # concat (map tripods its))) \<and>
   (\<forall>t. 0 < t \<and> t \<le> length (Build its) \<longrightarrow>
        Build its ! (t - 1) = concat (map (copies t) (enumerate 0 its))) \<and>
   Build (map (\<lambda>x. x\<lparr>row := f x\<rparr>) its) = Build its"
  using length_Build nth_Build Build_ignores_row by blast

theorem Build_groups_without_validation_witness:
  "(0 :: nat) < 2 \<and> 2 \<le> length (Build scenario_items) \<and>
   Build scenario_items ! (2 - 1) = concat (map (copies 2) (enumerate 0 scenario_items)) \<and>
   concat (map (copies 2) (enumerate 0 scenario_items)) = [1, 2]"
proof -
  have 1: "2 \<le> length (Build scenario_items)" by code_simp
  have 2: "concat (map (copies 2) (enumerate 0 scenario_items)) = [1, 2]" by code_simp
  from Build_groups_without_validation [of scenario_items, THEN conjunct2, THEN conjunct1,
      rule_format, of 2] 1
  have "Build scenario_items ! (2 - 1) = concat (map (copies 2) (enumerate 0 scenario_items))"
    by simp
  with 1 2 show ?thesis by simp
qed

section \<open>The order of scores\<close>

text \<open>
  Claim C4. The claim says that \<^verbatim>\<open>BetterThan\<close> is the lexicographic order on (priority
  count, total count, negated cost), so that with equal counts the smaller cost wins, a
  cost of zero included. The code negates an unsigned 32-bit cost: the negation of 0 is 0
  and the negation of 5 is \<open>2 ^ 32 - 5\<close>, so a score of cost 5 is better than the same
  score of cost 0, and the score of cost 0 is not better than the one of cost 5.
\<close>

theorem BetterThan_zero_cost_loses:
  "BetterThan \<lparr>score_tripods = t, score_cost = 5\<rparr> \<lparr>score_tripods = t, score_cost = 0\<rparr> m \<and>
   \<not> BetterThan \<lparr>score_tripods = t, score_cost = 0\<rparr> \<lparr>score_tripods = t, score_cost = 5\<rparr> m"
proof -
  have "(0 :: 32 word) < - 5" by code_simp
  then show ?thesis by (simp add: BetterThan_def score_key_def tripod_count_def)
qed

section \<open>The scenario of the spec\<close>

lemma scenario_run:
  "Optimize shl scenario_items 1 scenario_book =
     Some \<lparr>items = scenario_items, book = scenario_book, assignments = [],
           best_score = \<lparr>score_tripods = 3, score_cost = 8\<rparr>,
           emitted = [(\<lparr>score_tripods = 3, score_cost = 8\<rparr>, [0, 1])]\<rparr>"
  by code_simp

lemma scenario_valid:
  "\<forall>x\<in>set scenario_items. \<not> used x \<and> row x < kRows" "length scenario_book = kRows"
  by (simp_all add: scenario_items_def scenario_book_def kRows_def)

text \<open>
  Claim C2. The claim says that on the scenario the engine ends with item B alone (one
  priority tripod, two tripods, cost 3). The code ends with the items A and B, at cost 8,
  and this is the only solution it writes; the selection of B alone is feasible and
  strictly better under \<^verbatim>\<open>BetterThan\<close>.
\<close>

theorem scenario_ends_with_A_and_B:
  "Optimize shl scenario_items 1 scenario_book =
     Some \<lparr>items = scenario_items, book = scenario_book, assignments = [],
           best_score = \<lparr>score_tripods = 3, score_cost = 8\<rparr>,
           emitted = [(\<lparr>score_tripods = 3, score_cost = 8\<rparr>, [0, 1])]\<rparr> \<and>
   feasible_selection scenario_items scenario_book [1] \<and>
   selection_score scenario_items [1] = \<lparr>score_tripods = 3, score_cost = 3\<rparr> \<and>
   BetterThan (selection_score scenario_items [1]) \<lparr>score_tripods = 3, score_cost = 8\<rparr>
     (prio_mask_of 1)"
  by code_simp

text \<open>
  Claim C3. The claim says that the engine without the redundancy prune ends with the
  same best score. On the scenario the engine with the prune ends with cost 8 and the
  engine without it ends with cost 4 (the items B and C).
\<close>

theorem scenario_redundancy_prune_changes_result:
  "map_option best_score (Optimize_gen True shl scenario_items 1 scenario_book) =
     Some \<lparr>score_tripods = 3, score_cost = 8\<rparr> \<and>
   map_option best_score (Optimize_gen False shl scenario_items 1 scenario_book) =
     Some \<lparr>score_tripods = 3, score_cost = 4\<rparr>"
  by code_simp

section \<open>One iteration\<close>

text \<open>
  An iteration either pops the top frame, after releasing its candidate, or selects the
  candidate the scan finds.
\<close>

lemma scan_SomeD:
  "scan its bk ps i = Some j \<Longrightarrow>
     i \<le> j \<and> j < i + length ps \<and> \<not> used (its ! (ps ! (j - i))) \<and> bk ! row (its ! (ps ! (j - i))) \<noteq> 0"
proof (induction ps arbitrary: i)
  case Nil
  then show ?case by simp
next
  case (Cons p ps)
  show ?case
  proof (cases "used (its ! p) \<or> bk ! row (its ! p) = 0")
    case True
    with Cons.prems have "scan its bk ps (Suc i) = Some j" by simp
    from Cons.IH [OF this] show ?thesis by (auto simp: nth_Cons')
  next
    case False
    with Cons.prems show ?thesis by auto
  qed
qed

lemma scan_drop_SomeD:
  assumes "scan its bk (drop i v) i = Some j"
  shows "i \<le> j \<and> j < length v \<and> \<not> used (its ! (v ! j)) \<and> bk ! row (its ! (v ! j)) \<noteq> 0"
proof -
  have il: "i < length v" using assms by (cases "i < length v") auto
  from scan_SomeD [OF assms] have a: "i \<le> j" "j < i + length (drop i v)"
    "\<not> used (its ! (drop i v ! (j - i)))" "bk ! row (its ! (drop i v ! (j - i))) \<noteq> 0" by auto
  from a(1,2) il have jl: "j < length v" by simp
  have "drop i v ! (j - i) = v ! j" using a(1) jl il by simp
  with a jl show ?thesis by simp
qed

lemma assignments_unselect [simp]: "assignments (unselect p s) = assignments s"
  by (simp add: unselect_def)

lemma best_unselect [simp]: "best_score (unselect p s) = best_score s"
  by (simp add: unselect_def)

lemma emitted_unselect [simp]: "emitted (unselect p s) = emitted s"
  by (simp add: unselect_def)

lemma assignments_after_unselect [simp]: "assignments (after_unselect ts s) = assignments s"
  by (simp add: after_unselect_def Let_def)

lemma best_after_unselect [simp]: "best_score (after_unselect ts s) = best_score s"
  by (simp add: after_unselect_def Let_def)

lemma emitted_after_unselect [simp]: "emitted (after_unselect ts s) = emitted s"
  by (simp add: after_unselect_def Let_def)

lemma step_cases:
  fixes s ts
  defines "s1 \<equiv> after_unselect ts s"
  defines "v \<equiv> ts ! (length (assignments s) - 1)"
  defines "i \<equiv> nat (item (last (assignments s)) + 1)"
  shows "step r shl ts p s = pop s1 \<or>
     (\<exists>j. scan (items s1) (book s1) (drop i v) i = Some j \<and>
          step r shl ts p s = select (length ts) (prio_mask_of p) v (prev_of s) j s1)"
proof (cases "item (last (assignments s)) = - 1")
  case True
  then have "s1 = s" by (simp add: s1_def after_unselect_def)
  with True show ?thesis
    unfolding step_def advance_def prev_of_def v_def i_def Let_def
    by (simp split: option.split)
next
  case False
  then have "s1 = unselect (v ! nat (item (last (assignments s)))) s"
    by (simp add: s1_def after_unselect_def v_def)
  with False show ?thesis
    unfolding step_def advance_def prev_of_def v_def i_def Let_def
    by (simp split: option.split)
qed

lemma assignments_pop [simp]: "assignments (pop s) = butlast (assignments s)"
  by (simp add: pop_def)

lemma items_pop [simp]: "items (pop s) = items s"
  by (simp add: pop_def)

lemma book_pop [simp]: "book (pop s) = book s"
  by (simp add: pop_def)

lemma best_pop [simp]: "best_score (pop s) = best_score s"
  by (simp add: pop_def)

lemma emitted_pop [simp]: "emitted (pop s) = emitted s"
  by (simp add: pop_def)

lemma items_select:
  "items (select T pm v prev j s) = (items s)[v ! j := (items s ! (v ! j))\<lparr>used := True\<rparr>]"
  by (simp add: select_def Let_def)

lemma book_select:
  "book (select T pm v prev j s) =
     (book s)[row (items s ! (v ! j)) := book s ! row (items s ! (v ! j)) - 1]"
  by (simp add: select_def Let_def)

lemma assignments_select:
  assumes "assignments s \<noteq> []" "length (assignments s) \<le> T"
  shows "assignments (select T pm v prev j s) =
     butlast (assignments s) @ [\<lparr>item = int j, score = new_score prev (items s ! (v ! j))\<rparr>]
       @ replicate (T - length (assignments s)) \<lparr>item = - 1, score = new_score prev (items s ! (v ! j))\<rparr>"
  using assms by (auto simp add: select_def Let_def resize_def new_score_def)

lemma emitted_select:
  "assignments s \<noteq> [] \<Longrightarrow> emitted (select T pm v prev j s) =
     (if length (assignments s) = T \<and> BetterThan (new_score prev (items s ! (v ! j))) (best_score s) pm
      then emitted s @ [(new_score prev (items s ! (v ! j)),
             used_items ((items s)[v ! j := (items s ! (v ! j))\<lparr>used := True\<rparr>]))]
      else emitted s)"
  by (auto simp add: select_def Let_def new_score_def)

lemma best_select:
  "assignments s \<noteq> [] \<Longrightarrow> best_score (select T pm v prev j s) =
     (if length (assignments s) = T \<and> BetterThan (new_score prev (items s ! (v ! j))) (best_score s) pm
      then new_score prev (items s ! (v ! j)) else best_score s)"
  by (auto simp add: select_def Let_def new_score_def)

lemma length_assignments_select:
  assumes "assignments s \<noteq> []" "length (assignments s) \<le> T"
  shows "length (assignments (select T pm v prev j s)) = T"
proof -
  obtain n where "length (assignments s) = Suc n"
    using assms(1) by (cases "assignments s") auto
  then show ?thesis using assms by (simp add: assignments_select)
qed

lemma step_length_le:
  assumes "assignments s \<noteq> []" "length (assignments s) \<le> length ts"
  shows "length (assignments (step r shl ts p s)) \<le> length ts"
  using step_cases [of r shl ts p s] assms
  by (auto simp: length_assignments_select)

lemma step_length_ge:
  assumes "assignments s \<noteq> []" "length (assignments s) \<le> length ts"
  shows "length (assignments s) - 1 \<le> length (assignments (step r shl ts p s))"
  using step_cases [of r shl ts p s] assms
  by (auto simp: length_assignments_select)

lemma steps_stuck: "assignments s = [] \<Longrightarrow> steps r shl ts p n s = s"
  by (cases n) simp_all

lemma steps_Suc_right:
  "steps r shl ts p (Suc n) s =
     (if assignments (steps r shl ts p n s) = [] then steps r shl ts p n s
      else step r shl ts p (steps r shl ts p n s))"
proof (induction n arbitrary: s)
  case 0
  show ?case by simp
next
  case (Suc n)
  let ?f = "steps r shl ts p"
  show ?case
  proof (cases "assignments s = []")
    case True
    then show ?thesis by (simp add: steps_stuck)
  next
    case False
    then have a: "?f (Suc (Suc n)) s = ?f (Suc n) (step r shl ts p s)"
      and b: "?f (Suc n) s = ?f n (step r shl ts p s)" by simp_all
    show ?thesis unfolding a b by (rule Suc.IH)
  qed
qed

lemma steps_length_le:
  "length (assignments s) \<le> length ts \<Longrightarrow> length (assignments (steps r shl ts p n s)) \<le> length ts"
  by (induction n arbitrary: s) (auto simp: step_length_le)

section \<open>Termination\<close>

lemma work_fresh: "item a = - 1 \<Longrightarrow> work ts (replicate (length ts) a) = clear_cost ts"
  by (induction ts) auto

lemma work_Nil [simp]: "work ts [] = 0"
  by (cases ts) simp_all

lemma work_append:
  "length xs \<le> length ts \<Longrightarrow> work ts (xs @ ys) = work ts xs + work (drop (length xs) ts) ys"
proof (induction xs arbitrary: ts)
  case Nil
  show ?case by simp
next
  case (Cons a xs)
  then obtain v vs where ts: "ts = v # vs" by (cases ts) auto
  with Cons.prems have "length xs \<le> length vs" by simp
  from Cons.IH [OF this] show ?case by (simp add: ts)
qed

lemma work_arith:
  fixes L i j K C :: nat
  assumes "i \<le> j" "j < L" "K = 1 + C"
  shows "1 + (L - Suc j) * K + C < 1 + (L - i) * K"
proof -
  have "L - i = (L - Suc j) + (Suc j - i)" using assms by simp
  then have "(L - i) * K = (L - Suc j) * K + (Suc j - i) * K"
    by (simp add: add_mult_distrib)
  moreover have "1 \<le> Suc j - i" using assms by simp
  then have "K \<le> (Suc j - i) * K" by (cases "Suc j - i") simp_all
  ultimately show ?thesis using assms(3) by linarith
qed

lemma step_work:
  assumes ne: "assignments s \<noteq> []" and le: "length (assignments s) \<le> length ts"
  shows "work ts (assignments (step r shl ts p s)) < work ts (assignments s)"
proof -
  define xs where "xs = butlast (assignments s)"
  define a where "a = last (assignments s)"
  define v where "v = ts ! (length (assignments s) - 1)"
  define vs where "vs = drop (length (assignments s)) ts"
  define i where "i = nat (item a + 1)"
  have as: "assignments s = xs @ [a]" using ne by (simp add: xs_def a_def)
  have lx: "length xs < length ts" using le as by simp
  have dr: "drop (length xs) ts = v # vs"
    using lx as by (simp add: v_def vs_def Cons_nth_drop_Suc)
  have lvs: "length vs = length ts - length (assignments s)" by (simp add: vs_def)
  have old: "work ts (assignments s) = work ts xs + (1 + (length v - i) * (1 + clear_cost vs))"
    using lx by (simp add: as work_append dr i_def)
  from step_cases [of r shl ts p s]
  consider (pop) "step r shl ts p s = pop (after_unselect ts s)"
    | (sel) j where "scan (items (after_unselect ts s)) (book (after_unselect ts s)) (drop i v) i = Some j"
        "step r shl ts p s = select (length ts) (prio_mask_of p) v (prev_of s) j (after_unselect ts s)"
    unfolding v_def i_def a_def by blast
  then show ?thesis
  proof cases
    case pop
    then have "assignments (step r shl ts p s) = xs" by (simp add: xs_def)
    with old show ?thesis by simp
  next
    case sel
    from scan_drop_SomeD [OF sel(1)] have ij: "i \<le> j" "j < length v" by auto
    define sc where "sc = new_score (prev_of s) (items (after_unselect ts s) ! (v ! j))"
    define a' where "a' = \<lparr>item = int j, score = sc\<rparr>"
    define b' where "b' = \<lparr>item = - 1, score = sc\<rparr>"
    have new: "assignments (step r shl ts p s) = xs @ (a' # replicate (length vs) b')"
      using sel(2) ne le by (simp add: assignments_select xs_def lvs a'_def b'_def sc_def)
    have a': "item a' = int j" and b': "item b' = - 1" by (simp_all add: a'_def b'_def)
    have "work ts (assignments (step r shl ts p s)) =
        work ts xs + (1 + (length v - Suc j) * (1 + clear_cost vs) + clear_cost vs)"
      using lx b' by (simp add: new work_append dr a' work_fresh nat_add_distrib)
    moreover have "1 + (length v - Suc j) * (1 + clear_cost vs) + clear_cost vs
        < 1 + (length v - i) * (1 + clear_cost vs)"
      using ij by (intro work_arith) simp_all
    ultimately show ?thesis using old by linarith
  qed
qed

lemma search_loop_steps:
  assumes "length (assignments s) \<le> length ts"
  shows "\<exists>n. search_loop r shl ts p s = Some (steps r shl ts p n s) \<and>
             assignments (steps r shl ts p n s) = [] \<and>
             (\<forall>m<n. assignments (steps r shl ts p m s) \<noteq> [])"
  using assms
proof (induction "work ts (assignments s)" arbitrary: s rule: less_induct)
  case less
  show ?case
  proof (cases "assignments s = []")
    case True
    then have "search_loop r shl ts p s = Some (steps r shl ts p 0 s)"
      by (simp add: search_loop.simps)
    with True show ?thesis by (intro exI [of _ 0]) simp
  next
    case False
    let ?s = "step r shl ts p s"
    have "work ts (assignments ?s) < work ts (assignments s)"
      using False less.prems by (rule step_work)
    moreover have "length (assignments ?s) \<le> length ts"
      using False less.prems by (rule step_length_le)
    ultimately obtain n where n: "search_loop r shl ts p ?s = Some (steps r shl ts p n ?s)"
      "assignments (steps r shl ts p n ?s) = []"
      "\<forall>m<n. assignments (steps r shl ts p m ?s) \<noteq> []"
      using less.hyps by blast
    have "search_loop r shl ts p s = Some (steps r shl ts p (Suc n) s)"
      using False n(1) by (subst search_loop.simps) simp
    moreover have "assignments (steps r shl ts p (Suc n) s) = []"
      using False n(2) by simp
    moreover have "\<forall>m<Suc n. assignments (steps r shl ts p m s) \<noteq> []"
    proof (intro allI impI)
      fix m assume "m < Suc n"
      then show "assignments (steps r shl ts p m s) \<noteq> []"
        using False n(3) by (cases m) auto
    qed
    ultimately show ?thesis by blast
  qed
qed

lemma Optimize_gen_steps:
  "\<exists>n. Optimize_gen r shl its p bk = Some (steps r shl (Build its) p n (init its bk)) \<and>
       assignments (steps r shl (Build its) p n (init its bk)) = []"
proof -
  have "length (assignments (init its bk)) \<le> length (Build its)" by (simp add: init_def)
  from search_loop_steps [OF this, of r shl p] show ?thesis
    unfolding Optimize_gen_def by blast
qed

text \<open>
  Claim C8. For every catalog, book and priority count (and whatever the platform does
  with the undefined shifts) the loop of \<^verbatim>\<open>Optimize\<close> ends: there is a number \<open>n\<close> of
  iterations after which the frame vector is empty, the function returns the state
  reached then, the vector is not empty before, and, when an iteration ran at all, the
  last one started with the single frame of tripod 1 and removed it.
\<close>

theorem Optimize_terminates:
  "\<exists>n. Optimize shl its p bk = Some (steps True shl (Build its) p n (init its bk)) \<and>
       assignments (steps True shl (Build its) p n (init its bk)) = [] \<and>
       (\<forall>m<n. assignments (steps True shl (Build its) p m (init its bk)) \<noteq> []) \<and>
       (0 < n \<longrightarrow> length (assignments (steps True shl (Build its) p (n - 1) (init its bk))) = 1)"
proof -
  let ?f = "\<lambda>m. steps True shl (Build its) p m (init its bk)"
  have le: "length (assignments (init its bk)) \<le> length (Build its)"
    by (simp add: init_def)
  from search_loop_steps [OF le, of True shl p]
  obtain n where n: "search_loop True shl (Build its) p (init its bk) = Some (?f n)"
    "assignments (?f n) = []" "\<forall>m<n. assignments (?f m) \<noteq> []" by blast
  have "length (assignments (?f (n - 1))) = 1" if "0 < n"
  proof -
    from that obtain k where k: "n = Suc k" by (cases n) auto
    have ne: "assignments (?f k) \<noteq> []" using n(3) k by simp
    have lk: "length (assignments (?f k)) \<le> length (Build its)"
      using le by (rule steps_length_le)
    have "?f n = step True shl (Build its) p (?f k)"
      unfolding k steps_Suc_right using ne by (simp only: if_False)
    with step_length_ge [OF ne lk, of True shl p] n(2)
    have "length (assignments (?f k)) - 1 \<le> 0" by simp
    with ne show ?thesis by (cases "assignments (?f k)") (simp_all add: k)
  qed
  with n show ?thesis by (auto simp: Optimize_def Optimize_gen_def)
qed

theorem Optimize_terminates_witness:
  "\<exists>n. 0 < n \<and>
       Optimize shl_mod32 scenario_items 1 scenario_book =
         Some (steps True shl_mod32 (Build scenario_items) 1 n (init scenario_items scenario_book)) \<and>
       length (assignments (steps True shl_mod32 (Build scenario_items) 1 (n - 1)
         (init scenario_items scenario_book))) = 1"
proof -
  have "assignments (steps True shl_mod32 (Build scenario_items) 1 0
      (init scenario_items scenario_book)) \<noteq> []"
    by code_simp
  with Optimize_terminates [of shl_mod32 scenario_items 1 scenario_book]
  show ?thesis by (metis gr0I)
qed

section \<open>The invariant of the loop\<close>

lemma selected_Nil [simp]: "selected ts [] = []"
  by (cases ts) simp_all

lemma selected_append:
  "length xs \<le> length ts \<Longrightarrow>
     selected ts (xs @ ys) = selected ts xs @ selected (drop (length xs) ts) ys"
proof (induction xs arbitrary: ts)
  case Nil
  show ?case by simp
next
  case (Cons a xs)
  then obtain v vs where ts: "ts = v # vs" by (cases ts) auto
  with Cons.prems have "length xs \<le> length vs" by simp
  from Cons.IH [OF this] show ?case by (simp add: ts)
qed

lemma selected_fresh: "item b = - 1 \<Longrightarrow> selected ts (replicate m b) = []"
proof (induction ts arbitrary: m)
  case Nil
  show ?case by simp
next
  case (Cons v vs)
  then show ?case by (cases m) simp_all
qed

lemma selected_snoc:
  assumes "length xs < length ts"
  shows "selected ts (xs @ a # replicate m b) =
     selected ts xs @ (if item a = - 1 then [] else [ts ! length xs ! nat (item a)])
       @ selected (drop (Suc (length xs)) ts) (replicate m b)"
proof -
  have "drop (length xs) ts = ts ! length xs # drop (Suc (length xs)) ts"
    using assms by (simp add: Cons_nth_drop_Suc)
  then show ?thesis using assms by (simp add: selected_append)
qed

lemma selected_init: "selected ts (replicate n Assignment0) = []"
  by (rule selected_fresh) (simp add: Assignment0_def)

lemma length_flags [simp]: "length (flags its0 sel) = length its0"
  by (simp add: flags_def)

lemma nth_flags:
  "p < length its0 \<Longrightarrow> flags its0 sel ! p = (its0 ! p)\<lparr>used := used (its0 ! p) \<or> p \<in> set sel\<rparr>"
  by (simp add: flags_def)

lemma flags_Nil: "flags its0 [] = its0"
  by (simp add: flags_def map_nth)

lemma flags_select:
  assumes "p < length its0"
  shows "(flags its0 sel)[p := (flags its0 sel ! p)\<lparr>used := True\<rparr>] = flags its0 (sel @ [p])"
  using assms by (auto simp: list_eq_iff_nth_eq nth_flags nth_list_update)

lemma flags_unselect:
  assumes "p < length its0" "p \<notin> set sel" "\<not> used (its0 ! p)"
  shows "(flags its0 (sel @ [p]))[p := (flags its0 (sel @ [p]) ! p)\<lparr>used := False\<rparr>] = flags its0 sel"
  using assms by (auto simp: list_eq_iff_nth_eq nth_flags nth_list_update)

lemma cursors_ok_butlast: "cursors_ok ts fs \<Longrightarrow> cursors_ok ts (butlast fs)"
  by (auto simp: cursors_ok_def nth_butlast)

lemma cursors_ok_push:
  assumes "cursors_ok ts (xs @ [a])" "j < length (ts ! length xs)" "item b = - 1"
    "m = length ts - Suc (length xs)"
  shows "cursors_ok ts (xs @ \<lparr>item = int j, score = sc\<rparr> # replicate m b)"
proof -
  have lx: "length xs < length ts" using assms(1) by (simp add: cursors_ok_def)
  have old: "\<forall>k<length xs. - 1 \<le> item (xs ! k) \<and> item (xs ! k) < int (length (ts ! k))"
  proof (intro allI impI)
    fix k assume k: "k < length xs"
    with assms(1) have "- 1 \<le> item ((xs @ [a]) ! k) \<and> item ((xs @ [a]) ! k) < int (length (ts ! k))"
      by (simp add: cursors_ok_def)
    with k show "- 1 \<le> item (xs ! k) \<and> item (xs ! k) < int (length (ts ! k))"
      by (simp add: nth_append)
  qed
  show ?thesis
    unfolding cursors_ok_def
  proof (intro conjI allI impI)
    show "length (xs @ \<lparr>item = int j, score = sc\<rparr> # replicate m b) \<le> length ts"
      using lx assms(4) by simp
  next
    fix k assume k: "k < length (xs @ \<lparr>item = int j, score = sc\<rparr> # replicate m b)"
    consider "k < length xs" | "k = length xs" | "length xs < k" by linarith
    then have "- 1 \<le> item ((xs @ \<lparr>item = int j, score = sc\<rparr> # replicate m b) ! k) \<and>
          item ((xs @ \<lparr>item = int j, score = sc\<rparr> # replicate m b) ! k) < int (length (ts ! k))"
    proof cases
      case 1
      with old show ?thesis by (simp add: nth_append)
    next
      case 2
      with assms(2) show ?thesis by (simp add: nth_append)
    next
      case 3
      then obtain d where d: "k = length xs + Suc d" by (auto dest: less_imp_Suc_add)
      with k have "d < m" by simp
      with d assms(3) show ?thesis by (simp add: nth_append)
    qed
    then show "- 1 \<le> item ((xs @ \<lparr>item = int j, score = sc\<rparr> # replicate m b) ! k)"
      and "item ((xs @ \<lparr>item = int j, score = sc\<rparr> # replicate m b) ! k) < int (length (ts ! k))"
      by simp_all
  qed
qed

lemma inv_split:
  assumes inv: "inv its0 ts s" and ne: "assignments s \<noteq> []"
  defines "xs \<equiv> butlast (assignments s)"
  defines "a \<equiv> last (assignments s)"
  defines "v \<equiv> ts ! (length (assignments s) - 1)"
  shows "length xs < length ts"
    and "selected ts (assignments s) =
          selected ts xs @ (if item a = - 1 then [] else [v ! nat (item a)])"
    and "item a \<noteq> - 1 \<Longrightarrow> nat (item a) < length v"
proof -
  have as: "assignments s = xs @ [a]" using ne by (simp add: xs_def a_def)
  have c: "cursors_ok ts (xs @ [a])" using inv by (simp add: inv_def as)
  then show lx: "length xs < length ts" by (simp add: cursors_ok_def)
  have v: "v = ts ! length xs" by (simp add: v_def as)
  from selected_snoc [OF lx, of a 0]
  show "selected ts (assignments s) =
          selected ts xs @ (if item a = - 1 then [] else [v ! nat (item a)])"
    by (simp add: as v)
  from c have all: "\<forall>k<length (xs @ [a]). - 1 \<le> item ((xs @ [a]) ! k) \<and>
      item ((xs @ [a]) ! k) < int (length (ts ! k))"
    unfolding cursors_ok_def by (rule conjunct2)
  from all [rule_format, of "length xs"]
  have "- 1 \<le> item a \<and> item a < int (length (ts ! length xs))" by simp
  then show "item a \<noteq> - 1 \<Longrightarrow> nat (item a) < length v"
    unfolding v by arith
qed

lemma items_after_unselect:
  assumes inv: "inv its0 ts s" and ne: "assignments s \<noteq> []"
  shows "items (after_unselect ts s) = flags its0 (selected ts (butlast (assignments s)))"
proof -
  let ?a = "last (assignments s)"
  let ?v = "ts ! (length (assignments s) - 1)"
  let ?sx = "selected ts (butlast (assignments s))"
  note sp = inv_split [OF inv ne]
  show ?thesis
  proof (cases "item ?a = - 1")
    case True
    with sp(2) inv show ?thesis by (simp add: after_unselect_def inv_def)
  next
    case False
    let ?p = "?v ! nat (item ?a)"
    have sel: "selected ts (assignments s) = ?sx @ [?p]" using sp(2) False by simp
    have its: "items s = flags its0 (?sx @ [?p])" using inv sel by (simp add: inv_def)
    have d: "distinct (?sx @ [?p])" using inv sel by (simp add: inv_def)
    have p: "?p < length its0" "\<not> used (its0 ! ?p)" using inv sel by (simp_all add: inv_def)
    have "items (after_unselect ts s) = (items s)[?p := (items s ! ?p)\<lparr>used := False\<rparr>]"
      using False by (simp add: after_unselect_def unselect_def Let_def)
    also have "\<dots> = flags its0 ?sx"
      unfolding its using p d by (intro flags_unselect) simp_all
    finally show ?thesis .
  qed
qed

lemma inv_pop:
  assumes inv: "inv its0 ts s" and ne: "assignments s \<noteq> []"
  shows "inv its0 ts (pop (after_unselect ts s))"
proof -
  note sp = inv_split [OF inv ne]
  let ?sx = "selected ts (butlast (assignments s))"
  have "set ?sx \<subseteq> set (selected ts (assignments s))" using sp(2) by simp
  moreover have "distinct ?sx" using inv sp(2) by (simp add: inv_def)
  moreover have "cursors_ok ts (butlast (assignments s))"
    using inv by (simp add: inv_def cursors_ok_butlast)
  moreover have "\<forall>q\<in>set (selected ts (assignments s)). q < length its0 \<and> \<not> used (its0 ! q)"
    using inv by (simp add: inv_def)
  ultimately show ?thesis
    unfolding inv_def assignments_pop items_pop assignments_after_unselect
      items_after_unselect [OF inv ne]
    by blast
qed

lemma inv_select:
  assumes ok: "lists_ok its0 ts" and inv: "inv its0 ts s" and ne: "assignments s \<noteq> []"
    and v: "v = ts ! (length (assignments s) - 1)"
    and j: "j < length v" "\<not> used (items (after_unselect ts s) ! (v ! j))"
  shows "inv its0 ts (select (length ts) pm v prev j (after_unselect ts s))"
proof -
  let ?s1 = "after_unselect ts s"
  let ?xs = "butlast (assignments s)"
  let ?sx = "selected ts ?xs"
  let ?p = "v ! j"
  let ?s' = "select (length ts) pm v prev j ?s1"
  note sp = inv_split [OF inv ne]
  have lx: "length ?xs < length ts" by (rule sp(1))
  have vx: "v = ts ! length ?xs" using v by simp
  have its1: "items ?s1 = flags its0 ?sx" by (rule items_after_unselect [OF inv ne])
  have "?p \<in> set (ts ! length ?xs)" using j(1) vx by simp
  with ok lx have pN: "?p < length its0" unfolding lists_ok_def by blast
  from j(2) have pfree: "\<not> used (its0 ! ?p)" "?p \<notin> set ?sx"
    using pN by (simp_all add: its1 nth_flags)
  have dsx: "distinct ?sx" using inv sp(2) by (simp add: inv_def)
  have sxok: "\<forall>q\<in>set ?sx. q < length its0 \<and> \<not> used (its0 ! q)"
    using inv sp(2) by (simp add: inv_def)
  have le: "length (assignments ?s1) \<le> length ts" using lx by simp
  have ne1: "assignments ?s1 \<noteq> []" using ne by simp
  define sc where "sc = new_score prev (items ?s1 ! ?p)"
  define m where "m = length ts - Suc (length ?xs)"
  have new: "assignments ?s' = ?xs @ \<lparr>item = int j, score = sc\<rparr> # replicate m \<lparr>item = - 1, score = sc\<rparr>"
  proof -
    have "length ts - length (assignments ?s1) = m"
      using ne by (cases "assignments s" rule: rev_cases) (simp_all add: m_def)
    with assignments_select [OF ne1 le, of pm v prev j] show ?thesis
      by (simp add: sc_def)
  qed
  have sel': "selected ts (assignments ?s') = ?sx @ [?p]"
    unfolding new using selected_snoc [OF lx, of "\<lparr>item = int j, score = sc\<rparr>" m "\<lparr>item = - 1, score = sc\<rparr>"]
    by (simp add: selected_fresh vx)
  have c: "cursors_ok ts (?xs @ [last (assignments s)])"
    using inv ne by (simp add: inv_def)
  have c': "cursors_ok ts (assignments ?s')"
    unfolding new using c j(1) by (intro cursors_ok_push) (simp_all add: vx m_def)
  have its': "items ?s' = flags its0 (?sx @ [?p])"
    unfolding items_select its1 using pN by (rule flags_select)
  have "distinct (?sx @ [?p])" using dsx pfree(2) by simp
  moreover have "\<forall>q\<in>set (?sx @ [?p]). q < length its0 \<and> \<not> used (its0 ! q)"
    using sxok pfree(1) pN by simp
  ultimately show ?thesis
    unfolding inv_def sel' using c' its' by blast
qed

lemma inv_step:
  assumes ok: "lists_ok its0 ts" and inv: "inv its0 ts s" and ne: "assignments s \<noteq> []"
  shows "inv its0 ts (step r shl ts p s)"
proof -
  from step_cases [of r shl ts p s]
  consider (pop) "step r shl ts p s = pop (after_unselect ts s)"
    | (sel) j where "scan (items (after_unselect ts s)) (book (after_unselect ts s))
          (drop (nat (item (last (assignments s)) + 1)) (ts ! (length (assignments s) - 1)))
          (nat (item (last (assignments s)) + 1)) = Some j"
        "step r shl ts p s = select (length ts) (prio_mask_of p)
          (ts ! (length (assignments s) - 1)) (prev_of s) j (after_unselect ts s)"
    by blast
  then show ?thesis
  proof cases
    case pop
    then show ?thesis using inv_pop [OF inv ne] by simp
  next
    case sel
    from scan_drop_SomeD [OF sel(1)] sel(2) show ?thesis
      using inv_select [OF ok inv ne refl] by simp
  qed
qed

lemma inv_init_Build: "inv its (Build its) (init its bk)"
proof -
  have "selected (Build its) (assignments (init its bk)) = []"
    by (simp add: init_def selected_init)
  moreover have "cursors_ok (Build its) (assignments (init its bk))"
    by (simp add: init_def cursors_ok_def Assignment0_def)
  moreover have "items (init its bk) = its" by (simp add: init_def)
  ultimately show ?thesis by (simp add: inv_def flags_Nil)
qed

lemma inv_steps:
  "inv its (Build its) (steps r shl (Build its) p n (init its bk))"
proof -
  have "inv its (Build its) s \<Longrightarrow> inv its (Build its) (steps r shl (Build its) p n s)" for s
  proof (induction n arbitrary: s)
    case 0
    then show ?case by simp
  next
    case (Suc n)
    show ?case
    proof (cases "assignments s = []")
      case True
      with Suc.prems show ?thesis by simp
    next
      case False
      from inv_step [OF lists_ok_Build Suc.prems False, of r shl p]
      have "inv its (Build its) (steps r shl (Build its) p n (step r shl (Build its) p s))"
        by (rule Suc.IH)
      with False show ?thesis by simp
    qed
  qed
  from this [OF inv_init_Build] show ?thesis .
qed

section \<open>The catalog after the search\<close>

text \<open>
  Claim C10. When \<^verbatim>\<open>Optimize\<close> returns, the catalog is the catalog it was called with:
  every selection has been undone. In particular every \<^verbatim>\<open>used\<close> flag is false when every
  flag was false at the call. The book is a by-value copy, so the catalog and the output
  are all the caller can see.
\<close>

theorem Optimize_restores_catalog:
  assumes "Optimize shl its p bk = Some s'"
  shows "items s' = its \<and> ((\<forall>x\<in>set its. \<not> used x) \<longrightarrow> (\<forall>x\<in>set (items s'). \<not> used x))"
proof -
  let ?f = "\<lambda>n. steps True shl (Build its) p n (init its bk)"
  have "length (assignments (init its bk)) \<le> length (Build its)" by (simp add: init_def)
  from search_loop_steps [OF this, of True shl p]
  obtain n where n: "search_loop True shl (Build its) p (init its bk) = Some (?f n)"
    "assignments (?f n) = []" by blast
  with assms have s': "s' = ?f n" by (simp add: Optimize_def Optimize_gen_def)
  have "inv its (Build its) (?f n)" by (rule inv_steps)
  with n(2) have "items (?f n) = its" by (simp add: inv_def flags_Nil)
  with s' show ?thesis by simp
qed

theorem Optimize_restores_catalog_witness:
  "Optimize shl_mod32 scenario_items 1 scenario_book \<noteq> None \<and>
   items (the (Optimize shl_mod32 scenario_items 1 scenario_book)) = scenario_items \<and>
   list_all (\<lambda>x. \<not> used x) (items (the (Optimize shl_mod32 scenario_items 1 scenario_book)))"
proof -
  obtain s' where s': "Optimize shl_mod32 scenario_items 1 scenario_book = Some s'"
    using scenario_run [of shl_mod32] by simp
  from Optimize_restores_catalog [OF s'] scenario_valid(1) s'
  show ?thesis by (simp add: list_all_iff)
qed

section \<open>The capacity invariant\<close>

lemma unat_inc8:
  fixes w b :: "8 word"
  assumes "unat w + n = unat b" "0 < n"
  shows "unat (w + 1) = Suc (unat w)"
proof -
  have "unat b < 2 ^ LENGTH(8)" by (rule unsigned_less)
  then have "unat b < 256" by simp
  with assms have "unat w + 1 < 256" by simp
  then show ?thesis by (simp add: unat_word_ariths)
qed

lemma count_update:
  assumes "i < length xs"
  shows "length (filter P (xs[i := y])) + (if P (xs ! i) then 1 else 0) =
         length (filter P xs) + (if P y then 1 else 0)"
proof -
  define as where "as = take i xs"
  define bs where "bs = drop (Suc i) xs"
  define x where "x = xs ! i"
  have 1: "xs = as @ x # bs"
    unfolding as_def bs_def x_def using assms by (rule id_take_nth_drop)
  have 2: "xs[i := y] = as @ y # bs"
    unfolding as_def bs_def using assms by (rule upd_conv_take_nth_drop)
  have "length (filter P xs) = length (filter P (as @ x # bs))"
    by (rule arg_cong [OF 1, where f = "\<lambda>l. length (filter P l)"])
  then show ?thesis unfolding 2 x_def [symmetric] by simp
qed

lemma count_row_update:
  assumes "i < length its"
  shows "count_row c (its[i := y]) + (if used (its ! i) \<and> row (its ! i) = c then 1 else 0) =
         count_row c its + (if used y \<and> row y = c then 1 else 0)"
  unfolding count_row_def using assms by (rule count_update)

lemma cap_unselect:
  assumes cap: "cap_inv bk0 s" and p: "p < length (items s)" "used (items s ! p)"
    "row (items s ! p) < length bk0"
  shows "cap_inv bk0 (unselect p s)"
proof -
  let ?x = "items s ! p"
  let ?r = "row ?x"
  have lb: "length (book s) = length bk0" using cap by (simp add: cap_inv_def)
  have eq: "\<And>c. c < length bk0 \<Longrightarrow> unat (book s ! c) + count_row c (items s) = unat (bk0 ! c)"
    using cap by (simp add: cap_inv_def)
  have cnt: "\<And>c. count_row c ((items s)[p := ?x\<lparr>used := False\<rparr>]) + (if ?r = c then 1 else 0)
      = count_row c (items s)"
    using count_row_update [OF p(1), of _ "?x\<lparr>used := False\<rparr>"] p(2) by simp
  have "unat ((book s)[?r := book s ! ?r + 1] ! c) +
        count_row c ((items s)[p := ?x\<lparr>used := False\<rparr>]) = unat (bk0 ! c)"
    if c: "c < length bk0" for c
  proof (cases "c = ?r")
    case True
    from cnt [of ?r] have pos: "0 < count_row ?r (items s)" by simp
    from unat_inc8 [OF eq [OF p(3)] pos] cnt [of ?r] eq [OF p(3)] lb p(3) True
    show ?thesis by simp
  next
    case False
    with cnt [of c] eq [OF c] show ?thesis by simp
  qed
  then show ?thesis by (simp add: cap_inv_def unselect_def lb)
qed

lemma cap_select:
  assumes cap: "cap_inv bk0 s" and p: "v ! j < length (items s)" "\<not> used (items s ! (v ! j))"
    "book s ! row (items s ! (v ! j)) \<noteq> 0" "row (items s ! (v ! j)) < length bk0"
  shows "cap_inv bk0 (select T pm v prev j s)"
proof -
  let ?x = "items s ! (v ! j)"
  let ?r = "row ?x"
  have lb: "length (book s) = length bk0" using cap by (simp add: cap_inv_def)
  have eq: "\<And>c. c < length bk0 \<Longrightarrow> unat (book s ! c) + count_row c (items s) = unat (bk0 ! c)"
    using cap by (simp add: cap_inv_def)
  have cnt: "\<And>c. count_row c ((items s)[v ! j := ?x\<lparr>used := True\<rparr>])
      = count_row c (items s) + (if ?r = c then 1 else 0)"
    using count_row_update [OF p(1), of _ "?x\<lparr>used := True\<rparr>"] p(2) by simp
  have dec: "unat (book s ! ?r - 1) = unat (book s ! ?r) - 1"
    using p(3) by (rule unat_minus_one)
  have pos: "0 < unat (book s ! ?r)" using p(3) by (simp add: unat_gt_0)
  have "unat ((book s)[?r := book s ! ?r - 1] ! c) +
        count_row c ((items s)[v ! j := ?x\<lparr>used := True\<rparr>]) = unat (bk0 ! c)"
    if c: "c < length bk0" for c
  proof (cases "c = ?r")
    case True
    with cnt [of ?r] eq [OF p(4)] dec pos lb p(4) show ?thesis by simp
  next
    case False
    with cnt [of c] eq [OF c] show ?thesis by simp
  qed
  then show ?thesis by (simp add: cap_inv_def items_select book_select lb)
qed

lemma cap_after_unselect:
  assumes inv: "inv its0 ts s" and ne: "assignments s \<noteq> []" and cap: "cap_inv bk0 s"
    and rows: "\<forall>x\<in>set its0. row x < length bk0"
  shows "cap_inv bk0 (after_unselect ts s)"
proof (cases "item (last (assignments s)) = - 1")
  case True
  with cap show ?thesis by (simp add: after_unselect_def)
next
  case False
  let ?p = "ts ! (length (assignments s) - 1) ! nat (item (last (assignments s)))"
  note sp = inv_split [OF inv ne]
  have sel: "selected ts (assignments s) = selected ts (butlast (assignments s)) @ [?p]"
    using sp(2) False by simp
  have pN: "?p < length its0" using inv sel by (simp add: inv_def)
  have its: "items s = flags its0 (selected ts (assignments s))" using inv by (simp add: inv_def)
  have "used (items s ! ?p)" unfolding its using pN sel by (simp add: nth_flags)
  moreover have "row (items s ! ?p) < length bk0"
    unfolding its using pN rows by (simp add: nth_flags)
  moreover have "?p < length (items s)" unfolding its using pN by simp
  ultimately have "cap_inv bk0 (unselect ?p s)" using cap by (intro cap_unselect)
  with False show ?thesis by (simp add: after_unselect_def Let_def)
qed

lemma cap_step:
  assumes ok: "lists_ok its0 ts" and inv: "inv its0 ts s" and ne: "assignments s \<noteq> []"
    and cap: "cap_inv bk0 s" and rows: "\<forall>x\<in>set its0. row x < length bk0"
  shows "cap_inv bk0 (step r shl ts p s)"
proof -
  let ?s1 = "after_unselect ts s"
  let ?v = "ts ! (length (assignments s) - 1)"
  have cap1: "cap_inv bk0 ?s1" by (rule cap_after_unselect [OF inv ne cap rows])
  have its1: "items ?s1 = flags its0 (selected ts (butlast (assignments s)))"
    by (rule items_after_unselect [OF inv ne])
  from step_cases [of r shl ts p s]
  consider (pop) "step r shl ts p s = pop ?s1"
    | (sel) j where "scan (items ?s1) (book ?s1)
          (drop (nat (item (last (assignments s)) + 1)) ?v)
          (nat (item (last (assignments s)) + 1)) = Some j"
        "step r shl ts p s = select (length ts) (prio_mask_of p) ?v (prev_of s) j ?s1"
    by blast
  then show ?thesis
  proof cases
    case pop
    with cap1 show ?thesis by (simp add: cap_inv_def)
  next
    case sel
    from scan_drop_SomeD [OF sel(1)]
    have j: "j < length ?v" "\<not> used (items ?s1 ! (?v ! j))"
      "book ?s1 ! row (items ?s1 ! (?v ! j)) \<noteq> 0" by auto
    have lx: "length (assignments s) - 1 < length ts"
      using inv_split(1) [OF inv ne] by simp
    have "?v ! j \<in> set ?v" using j(1) by simp
    with ok lx have pN: "?v ! j < length its0" unfolding lists_ok_def by blast
    then have "row (items ?s1 ! (?v ! j)) < length bk0"
      unfolding its1 using rows by (simp add: nth_flags)
    moreover have "?v ! j < length (items ?s1)" unfolding its1 using pN by simp
    ultimately show ?thesis unfolding sel(2) using cap1 j(2,3) by (intro cap_select)
  qed
qed

lemma count_row_unused: "\<forall>x\<in>set its. \<not> used x \<Longrightarrow> count_row c its = 0"
  by (simp add: count_row_def)

lemma cap_init: "\<forall>x\<in>set its. \<not> used x \<Longrightarrow> cap_inv bk (init its bk)"
  by (simp add: cap_inv_def init_def count_row_unused)

lemma cap_steps:
  assumes un: "\<forall>x\<in>set its. \<not> used x" and rows: "\<forall>x\<in>set its. row x < length bk"
  shows "cap_inv bk (steps r shl (Build its) p n (init its bk))"
proof -
  have "inv its (Build its) s \<Longrightarrow> cap_inv bk s \<Longrightarrow>
      cap_inv bk (steps r shl (Build its) p n s)" for s
  proof (induction n arbitrary: s)
    case 0
    then show ?case by simp
  next
    case (Suc n)
    show ?case
    proof (cases "assignments s = []")
      case True
      with Suc.prems show ?thesis by simp
    next
      case False
      have "cap_inv bk (steps r shl (Build its) p n (step r shl (Build its) p s))"
        using inv_step [OF lists_ok_Build Suc.prems(1) False, of r shl p]
          cap_step [OF lists_ok_Build Suc.prems(1) False Suc.prems(2) rows, of r shl p]
        by (rule Suc.IH)
      with False show ?thesis by simp
    qed
  qed
  from this [OF inv_init_Build cap_init [OF un]] show ?thesis .
qed

text \<open>
  Claim C7. When the catalog arrives with every \<^verbatim>\<open>used\<close> flag false and every row in
  \<open>[0, kRows)\<close>, then after every number \<open>n\<close> of iterations and for every row \<open>c\<close>, the
  remaining capacity \<open>book[c]\<close> plus the number of used items of row \<open>c\<close> is the initial
  capacity of \<open>c\<close> (the sum is taken in the natural numbers, so neither the decrement nor
  the increment of the 8-bit entry wraps around), and so the number of used items of row
  \<open>c\<close> does not exceed the initial capacity.
\<close>

theorem capacity_invariant:
  assumes "\<forall>x\<in>set its. \<not> used x \<and> row x < kRows" and "length bk = kRows"
  shows "\<forall>c<kRows.
     unat (book (steps True shl (Build its) p n (init its bk)) ! c) +
       count_row c (items (steps True shl (Build its) p n (init its bk))) = unat (bk ! c) \<and>
     count_row c (items (steps True shl (Build its) p n (init its bk))) \<le> unat (bk ! c)"
proof -
  have "cap_inv bk (steps True shl (Build its) p n (init its bk))"
    using assms by (intro cap_steps) simp_all
  then show ?thesis using assms(2) by (auto simp: cap_inv_def)
qed

theorem capacity_invariant_witness:
  "list_all (\<lambda>x. \<not> used x \<and> row x < kRows) scenario_items \<and>
   length scenario_book = kRows \<and>
   unat (book (steps True shl_mod32 (Build scenario_items) 1 3
           (init scenario_items scenario_book)) ! 0) +
     count_row 0 (items (steps True shl_mod32 (Build scenario_items) 1 3
           (init scenario_items scenario_book))) = unat (scenario_book ! 0) \<and>
   count_row 0 (items (steps True shl_mod32 (Build scenario_items) 1 3
           (init scenario_items scenario_book))) = 1"
proof -
  have "count_row 0 (items (steps True shl_mod32 (Build scenario_items) 1 3
           (init scenario_items scenario_book))) = 1"
    by code_simp
  moreover have "(0 :: nat) < kRows" by (simp add: kRows_def)
  with capacity_invariant [OF scenario_valid, of shl_mod32 1 3]
  have "unat (book (steps True shl_mod32 (Build scenario_items) 1 3
           (init scenario_items scenario_book)) ! 0) +
     count_row 0 (items (steps True shl_mod32 (Build scenario_items) 1 3
           (init scenario_items scenario_book))) = unat (scenario_book ! 0)"
    by blast
  ultimately show ?thesis
    using scenario_valid by (simp only: list_all_iff)
qed

section \<open>The output\<close>

lemma in_used_items: "q \<in> set (used_items its) \<longleftrightarrow> q < length its \<and> used (its ! q)"
  by (auto simp: used_items_def)

lemma step_emits:
  assumes ok: "lists_ok its0 ts" and inv: "inv its0 ts s" and ne: "assignments s \<noteq> []"
    and em: "emitted (step r shl ts p s) \<noteq> emitted s"
  shows "length (assignments s) = length ts \<and>
     (\<exists>j. j < length (ts ! (length ts - 1)) \<and>
          assignments (step r shl ts p s) = butlast (assignments s) @
            [\<lparr>item = int j, score = best_score (step r shl ts p s)\<rparr>] \<and>
          emitted (step r shl ts p s) = emitted s @
            [(best_score (step r shl ts p s), used_items (items (step r shl ts p s)))] \<and>
          ts ! (length ts - 1) ! j \<in> set (used_items (items (step r shl ts p s))) \<and>
          BetterThan (best_score (step r shl ts p s)) (best_score s) (prio_mask_of p))"
proof -
  let ?s1 = "after_unselect ts s"
  let ?v = "ts ! (length (assignments s) - 1)"
  have ne1: "assignments ?s1 \<noteq> []" using ne by simp
  have le1: "length (assignments ?s1) \<le> length ts" using inv by (simp add: inv_def cursors_ok_def)
  have its1: "items ?s1 = flags its0 (selected ts (butlast (assignments s)))"
    by (rule items_after_unselect [OF inv ne])
  from step_cases [of r shl ts p s]
  consider (pop) "step r shl ts p s = pop ?s1"
    | (sel) j where "scan (items ?s1) (book ?s1)
          (drop (nat (item (last (assignments s)) + 1)) ?v)
          (nat (item (last (assignments s)) + 1)) = Some j"
       "step r shl ts p s = select (length ts) (prio_mask_of p) ?v (prev_of s) j ?s1"
    by blast
  then show ?thesis
  proof cases
    case pop
    with em show ?thesis by simp
  next
    case sel
    let ?sc = "new_score (prev_of s) (items ?s1 ! (?v ! j))"
    let ?its' = "(items ?s1)[?v ! j := (items ?s1 ! (?v ! j))\<lparr>used := True\<rparr>]"
    from em have c: "length (assignments s) = length ts"
      "BetterThan ?sc (best_score s) (prio_mask_of p)"
      by (simp_all add: sel(2) emitted_select [OF ne1] split: if_splits)
    from scan_drop_SomeD [OF sel(1)] have j: "j < length ?v" by simp
    have lx: "length (assignments s) - 1 < length ts" using c(1) ne by (cases "assignments s") simp_all
    have "?v ! j \<in> set ?v" using j by simp
    with ok lx have pN: "?v ! j < length its0" unfolding lists_ok_def by blast
    have best: "best_score (step r shl ts p s) = ?sc"
      using c by (simp add: sel(2) best_select [OF ne1])
    have its: "items (step r shl ts p s) = ?its'" by (simp add: sel(2) items_select)
    have "?v ! j \<in> set (used_items ?its')"
      using pN by (simp add: in_used_items its1)
    moreover have "assignments (step r shl ts p s) = butlast (assignments s) @ [\<lparr>item = int j, score = ?sc\<rparr>]"
      using assignments_select [OF ne1 le1, of "prio_mask_of p" ?v "prev_of s" j] c(1)
      by (simp add: sel(2))
    moreover have "emitted (step r shl ts p s) = emitted s @ [(?sc, used_items ?its')]"
      using c by (simp add: sel(2) emitted_select [OF ne1])
    ultimately show ?thesis using c j unfolding best its by (intro conjI exI [of _ j]) simp_all
  qed
qed

lemma emit_inv_step:
  assumes ok: "lists_ok its0 ts" and inv: "inv its0 ts s" and ne: "assignments s \<noteq> []"
    and e: "emit_inv ts s"
  shows "emit_inv ts (step r shl ts p s)"
proof (cases "emitted (step r shl ts p s) = emitted s")
  case True
  with e show ?thesis by (simp add: emit_inv_def)
next
  case False
  from step_emits [OF ok inv ne False]
  obtain j where j: "length (assignments s) = length ts" "j < length (ts ! (length ts - 1))"
    "emitted (step r shl ts p s) = emitted s @
        [(best_score (step r shl ts p s), used_items (items (step r shl ts p s)))]"
    "ts ! (length ts - 1) ! j \<in> set (used_items (items (step r shl ts p s)))"
    by blast
  have "0 < length ts" using j(1) ne by (cases "assignments s") auto
  moreover have "ts ! (length ts - 1) ! j \<in> set (ts ! (length ts - 1))" using j(2) by simp
  ultimately show ?thesis
    using e j(4) unfolding emit_inv_def by (subst j(3)) auto
qed

lemma emit_inv_steps: "emit_inv (Build its) (steps r shl (Build its) p n (init its bk))"
proof -
  have "inv its (Build its) s \<Longrightarrow> emit_inv (Build its) s \<Longrightarrow>
      emit_inv (Build its) (steps r shl (Build its) p n s)" for s
  proof (induction n arbitrary: s)
    case 0
    then show ?case by simp
  next
    case (Suc n)
    show ?case
    proof (cases "assignments s = []")
      case True
      with Suc.prems show ?thesis by simp
    next
      case False
      have "emit_inv (Build its) (steps r shl (Build its) p n (step r shl (Build its) p s))"
        using inv_step [OF lists_ok_Build Suc.prems(1) False, of r shl p]
          emit_inv_step [OF lists_ok_Build Suc.prems(1) False Suc.prems(2), of r shl p]
        by (rule Suc.IH)
      with False show ?thesis by simp
    qed
  qed
  moreover have "emit_inv (Build its) (init its bk)" by (simp add: emit_inv_def init_def)
  ultimately show ?thesis using inv_init_Build by blast
qed

subsection \<open>Where solutions are written\<close>

text \<open>
  Claim C6. An iteration writes a solution only when it starts with the frame vector at
  full depth, so that the frame on top is the frame of the last tripod \<open>T\<close>; that frame
  then holds a cursor into the candidate list of \<open>T\<close>, the solution written is the score of
  that frame with the items used at that moment, and the candidate under the cursor is one
  of them. So every solution \<^verbatim>\<open>Optimize\<close> has written when it returns contains an item of
  the candidate list of \<open>T\<close>, an item that lists tripod \<open>T\<close>: an assignment whose last frame
  selects nothing is never written.
\<close>

theorem emitted_by_deepest_frame:
  "(\<forall>n. emitted (steps True shl (Build its) p (Suc n) (init its bk)) \<noteq>
          emitted (steps True shl (Build its) p n (init its bk)) \<longrightarrow>
        length (assignments (steps True shl (Build its) p n (init its bk))) = length (Build its) \<and>
        (\<exists>j<length (Build its ! (length (Build its) - 1)).
            item (last (assignments (steps True shl (Build its) p (Suc n) (init its bk)))) = int j \<and>
            emitted (steps True shl (Build its) p (Suc n) (init its bk)) =
              emitted (steps True shl (Build its) p n (init its bk)) @
                [(score (last (assignments (steps True shl (Build its) p (Suc n) (init its bk)))),
                  used_items (items (steps True shl (Build its) p (Suc n) (init its bk))))] \<and>
            Build its ! (length (Build its) - 1) ! j
              \<in> set (used_items (items (steps True shl (Build its) p (Suc n) (init its bk)))))) \<and>
   (\<forall>s'. Optimize shl its p bk = Some s' \<longrightarrow>
      (\<forall>e\<in>set (emitted s'). \<exists>q\<in>set (snd e).
          q \<in> set (Build its ! (length (Build its) - 1)) \<and>
          length (Build its) \<in> set (tripods (its ! q))))"
proof -
  let ?f = "\<lambda>n. steps True shl (Build its) p n (init its bk)"
  have part1: "length (assignments (?f n)) = length (Build its) \<and>
        (\<exists>j<length (Build its ! (length (Build its) - 1)).
            item (last (assignments (?f (Suc n)))) = int j \<and>
            emitted (?f (Suc n)) = emitted (?f n) @
                [(score (last (assignments (?f (Suc n)))), used_items (items (?f (Suc n))))] \<and>
            Build its ! (length (Build its) - 1) ! j \<in> set (used_items (items (?f (Suc n)))))"
    if em: "emitted (?f (Suc n)) \<noteq> emitted (?f n)" for n
  proof -
  from em have ne: "assignments (?f n) \<noteq> []"
    unfolding steps_Suc_right by (auto split: if_splits)
  then have eq: "?f (Suc n) = step True shl (Build its) p (?f n)"
    unfolding steps_Suc_right by simp
  have inv: "inv its (Build its) (?f n)" by (rule inv_steps)
  from em have em': "emitted (step True shl (Build its) p (?f n)) \<noteq> emitted (?f n)"
    unfolding eq .
  from step_emits [OF lists_ok_Build inv ne em']
  obtain j where j: "length (assignments (?f n)) = length (Build its)"
    "j < length (Build its ! (length (Build its) - 1))"
    "assignments (?f (Suc n)) = butlast (assignments (?f n)) @
        [\<lparr>item = int j, score = best_score (?f (Suc n))\<rparr>]"
    "emitted (?f (Suc n)) = emitted (?f n) @
        [(best_score (?f (Suc n)), used_items (items (?f (Suc n))))]"
    "Build its ! (length (Build its) - 1) ! j \<in> set (used_items (items (?f (Suc n))))"
    unfolding eq by blast
  from j(3) have "item (last (assignments (?f (Suc n)))) = int j"
    "score (last (assignments (?f (Suc n)))) = best_score (?f (Suc n))" by simp_all
  with j show ?thesis by auto
  qed
  have part2: "\<exists>q\<in>set (snd e). q \<in> set (Build its ! (length (Build its) - 1)) \<and>
      length (Build its) \<in> set (tripods (its ! q))"
    if s': "Optimize shl its p bk = Some s'" and e: "e \<in> set (emitted s')" for s' e
  proof -
  from Optimize_gen_steps [of True shl its p bk] s'
  obtain m where "s' = steps True shl (Build its) p m (init its bk)"
    unfolding Optimize_def by auto
  with emit_inv_steps [of its True shl p m bk] have "emit_inv (Build its) s'" by simp
  with e obtain q where q: "0 < length (Build its)" "q \<in> set (snd e)"
    "q \<in> set (Build its ! (length (Build its) - 1))"
    unfolding emit_inv_def by blast
  from Build_member [of "length (Build its) - 1" its q] q(1,3)
  have "length (Build its) \<in> set (tripods (its ! q))" by simp
  with q show ?thesis by blast
  qed
  from part1 part2 show ?thesis by blast
qed

theorem emitted_by_deepest_frame_witness:
  "emitted (steps True shl_mod32 (Build scenario_items) 1 3 (init scenario_items scenario_book)) \<noteq>
     emitted (steps True shl_mod32 (Build scenario_items) 1 2 (init scenario_items scenario_book)) \<and>
   length (assignments (steps True shl_mod32 (Build scenario_items) 1 2
     (init scenario_items scenario_book))) = length (Build scenario_items) \<and>
   (\<exists>q. q \<in> set (snd (hd (emitted (the (Optimize shl_mod32 scenario_items 1 scenario_book))))) \<and>
        q \<in> set (Build scenario_items ! (length (Build scenario_items) - 1)))"
proof -
  have 1: "emitted (steps True shl_mod32 (Build scenario_items) 1 (Suc 2)
        (init scenario_items scenario_book)) \<noteq>
     emitted (steps True shl_mod32 (Build scenario_items) 1 2 (init scenario_items scenario_book))"
    by code_simp
  have 2: "hd (emitted (the (Optimize shl_mod32 scenario_items 1 scenario_book)))
      \<in> set (emitted (the (Optimize shl_mod32 scenario_items 1 scenario_book)))"
    by (simp add: scenario_run)
  have 3: "Optimize shl_mod32 scenario_items 1 scenario_book =
      Some (the (Optimize shl_mod32 scenario_items 1 scenario_book))"
    by (simp add: scenario_run)
  note t = emitted_by_deepest_frame [of shl_mod32 scenario_items 1 scenario_book]
  from t [THEN conjunct1, rule_format, OF 1]
  have a: "length (assignments (steps True shl_mod32 (Build scenario_items) 1 2
     (init scenario_items scenario_book))) = length (Build scenario_items)" by blast
  from t [THEN conjunct2, rule_format, OF 3 2]
  have b: "\<exists>q. q \<in> set (snd (hd (emitted (the (Optimize shl_mod32 scenario_items 1 scenario_book))))) \<and>
        q \<in> set (Build scenario_items ! (length (Build scenario_items) - 1))" by blast
  from 1 a b show ?thesis by (simp add: numeral_3_eq_3)
qed

subsection \<open>The final best score\<close>

text \<open>
  Claim C1. The claim says that for every catalog, book and priority count the best score
  \<^verbatim>\<open>Optimize\<close> ends with is the global optimum: no feasible selection has a strictly
  better score. On the catalog of one item that lists the tripods 1 and 2, with one
  priority tripod, selecting the item is feasible and obtains every priority tripod, so
  the assumption that the comment on the priority branch states does hold. Yet
  \<^verbatim>\<open>Optimize\<close> writes nothing and ends with the zero score, which the selection of the item
  beats: the frame of tripod 2 is popped by the priority branch before anything is
  selected, and once frame 1 has selected the item, the frame of tripod 2 is popped by the
  redundancy branch without the assignment being scored.
\<close>

theorem full_priority_solution_missed:
  "Optimize shl pair_items 1 unit_book =
     Some \<lparr>items = pair_items, book = unit_book, assignments = [], best_score = Score0,
           emitted = []\<rparr> \<and>
   feasible_selection pair_items unit_book [0] \<and>
   selection_score pair_items [0] = \<lparr>score_tripods = 3, score_cost = 0\<rparr> \<and>
   score_tripods (selection_score pair_items [0]) AND prio_mask_of 1 = prio_mask_of 1 \<and>
   BetterThan (selection_score pair_items [0]) Score0 (prio_mask_of 1)"
  by code_simp

section \<open>The redundancy branch at tripod 32\<close>

lemma frame32_state_eq:
  "frame32_state =
     \<lparr>items =
        [\<lparr>row = 0, cost = 0, tripods = [1, 33, 0], used = True\<rparr>,
         \<lparr>row = 1, cost = 0, tripods = [32, 0, 0], used = False\<rparr>,
         \<lparr>row = 2, cost = 0, tripods = [34, 0, 0], used = False\<rparr>],
      book = [0, 1, 1, 1, 1, 1],
      assignments =
        \<lparr>item = 0, score = \<lparr>score_tripods = 4294967297, score_cost = 0\<rparr>\<rparr> #
        replicate 31 \<lparr>item = - 1, score = \<lparr>score_tripods = 4294967297, score_cost = 0\<rparr>\<rparr>,
      best_score = \<lparr>score_tripods = 12884901889, score_cost = 0\<rparr>,
      emitted = [(\<lparr>score_tripods = 12884901889, score_cost = 0\<rparr>, [0, 2])]\<rparr>"
  by code_simp

text \<open>
  Claim C5. The claim says that the frame of tripod \<open>k\<close> is popped on its first visit
  exactly when tripod \<open>k\<close> is in the inherited bitmask, for \<open>k\<close> of 32 and above too. The
  code tests \<^verbatim>\<open>prev.score.tripods & (1 << (tripod - 1))\<close> with a 32-bit \<^verbatim>\<open>1\<close>. In
  \<open>frame32_state\<close> the frame of tripod 32 is on top and has tried no candidate, the
  inherited bitmask holds the tripods 1 and 33 and not tripod 32, the priority test would
  pass and the scan would find the item that lists tripod 32; yet the iteration pops the
  frame, whatever the platform does with the undefined shifts: \<^verbatim>\<open>1 << 31\<close> sign-extends to
  the bits 31 to 63, and bit 32 is set. The run ends with the items 0 and 2, while the
  three items together are feasible and cover one more tripod.
\<close>

theorem redundancy_pop_without_tripod_32:
  "length (assignments frame32_state) = 32 \<and>
   item (last (assignments frame32_state)) = - 1 \<and>
   score_tripods (score (prev_of frame32_state)) = 4294967297 \<and>
   \<not> bit (score_tripods (score (prev_of frame32_state))) (32 - 1) \<and>
   score_tripods (score (last (assignments frame32_state))) AND prio_mask_of 1 = prio_mask_of 1 \<and>
   scan (items frame32_state) (book frame32_state) (Build wide_items ! (32 - 1)) 0 = Some 0 \<and>
   int_shl shl (32 - 1) = 18446744071562067968 \<and>
   step True shl (Build wide_items) 1 frame32_state = pop frame32_state \<and>
   Optimize shl_mod32 wide_items 1 unit_book =
     Some \<lparr>items = wide_items, book = unit_book, assignments = [],
           best_score = \<lparr>score_tripods = 12884901889, score_cost = 0\<rparr>,
           emitted = [(\<lparr>score_tripods = 12884901889, score_cost = 0\<rparr>, [0, 2])]\<rparr> \<and>
   feasible_selection wide_items unit_book [0, 1, 2] \<and>
   BetterThan (selection_score wide_items [0, 1, 2])
     \<lparr>score_tripods = 12884901889, score_cost = 0\<rparr> (prio_mask_of 1)"
proof -
  have "Optimize shl_mod32 wide_items 1 unit_book =
     Some \<lparr>items = wide_items, book = unit_book, assignments = [],
           best_score = \<lparr>score_tripods = 12884901889, score_cost = 0\<rparr>,
           emitted = [(\<lparr>score_tripods = 12884901889, score_cost = 0\<rparr>, [0, 2])]\<rparr>"
    by code_simp
  moreover have "feasible_selection wide_items unit_book [0, 1, 2] \<and>
     BetterThan (selection_score wide_items [0, 1, 2])
       \<lparr>score_tripods = 12884901889, score_cost = 0\<rparr> (prio_mask_of 1)"
    by code_simp
  moreover have "length (assignments frame32_state) = 32 \<and>
     item (last (assignments frame32_state)) = - 1 \<and>
     score_tripods (score (prev_of frame32_state)) = 4294967297 \<and>
     \<not> bit (score_tripods (score (prev_of frame32_state))) (32 - 1) \<and>
     score_tripods (score (last (assignments frame32_state))) AND prio_mask_of 1 = prio_mask_of 1 \<and>
     scan (items frame32_state) (book frame32_state) (Build wide_items ! (32 - 1)) 0 = Some 0"
    unfolding frame32_state_eq by code_simp
  moreover have "int_shl shl (32 - 1) = 18446744071562067968"
    by code_simp
  moreover have "step True shl (Build wide_items) 1 frame32_state = pop frame32_state"
    unfolding frame32_state_eq by code_simp
  ultimately show ?thesis by simp
qed

end
